theory Spec2Isabelle
  imports Main "HOL-Library.Sublist"
begin

text \<open>
  A shallow embedding of main.go of terraform-clean-syntax: the two simplifiers of token
  sequences, cleanValueExpr and cleanTypeExpr, the helper trimNewlines, and the walk
  cleanBody over the attributes and blocks of a parsed file. Reading and writing files,
  parsing and printing are left to the libraries the program calls.
\<close>

section \<open>Tokens\<close>

text \<open>
  Modelled from the spec: the token kinds of the external tokenizer (package hclsyntax),
  which is not part of the repository. The kinds the program tests or builds are listed
  by name; every other kind of the tokenizer is \<open>TokenOther\<close> with its rune code.
\<close>

datatype tokenType =
    TokenOQuote
  | TokenCQuote
  | TokenTemplateInterp
  | TokenTemplateSeqEnd
  | TokenQuotedLit
  | TokenIdent
  | TokenOParen
  | TokenCParen
  | TokenNewline
  | TokenOther nat

text \<open>
  Modelled from the spec: a token of the writer package (hclwrite.Token), with its kind,
  its bytes and the number of spaces printed before it. A token literal of the program
  that leaves \<open>SpacesBefore\<close> out has it zero.
\<close>

record token =
  Type :: tokenType
  Bytes :: string
  SpacesBefore :: nat

type_synonym tokens = "token list"

text \<open>A run-time panic of the Go program: a slice expression with bounds out of range.\<close>

datatype panic = SliceBoundsOutOfRange nat nat

text \<open>
  The slice expression \<open>tokens[lo:hi]\<close>. Go panics unless \<open>lo \<le> hi\<close> and \<open>hi\<close> is
  within the capacity; every slice expression of the program has \<open>hi \<le> len(tokens)\<close>,
  so the length stands for the capacity here.
\<close>

definition sliceExpr :: "tokens \<Rightarrow> nat \<Rightarrow> nat \<Rightarrow> panic + tokens" where
  "sliceExpr ts lo hi =
     (if lo \<le> hi \<and> hi \<le> length ts then Inr (take (hi - lo) (drop lo ts))
      else Inl (SliceBoundsOutOfRange lo hi))"

section \<open>trimNewlines\<close>

text \<open>
  The first loop of trimNewlines, \<open>for start = 0; start < len(tokens); start++\<close>, leaving
  at the first token that is not a newline. The function is given the current \<open>start\<close>
  and returns its value after the loop.
\<close>

function startLoop :: "tokens \<Rightarrow> nat \<Rightarrow> nat" where
  "startLoop ts start =
     (if start < length ts
      then (if Type (ts ! start) \<noteq> TokenNewline then start else startLoop ts (start + 1))
      else start)"
  by pat_completeness auto
termination
  by (relation "measure (\<lambda>(ts, start). length ts - start)") auto

declare startLoop.simps [simp del]

text \<open>
  The second loop, \<open>for end = len(tokens); end > 0; end--\<close>, leaving at the first
  \<open>tokens[end-1]\<close> that is not a newline.
\<close>

fun endLoop :: "tokens \<Rightarrow> nat \<Rightarrow> nat" where
  "endLoop ts 0 = 0"
| "endLoop ts (Suc e) =
     (if Type (ts ! e) \<noteq> TokenNewline then Suc e else endLoop ts e)"

definition trimNewlines :: "tokens \<Rightarrow> panic + tokens" where
  "trimNewlines ts =
     (if length ts = 0 then Inr []
      else sliceExpr ts (startLoop ts 0) (endLoop ts (length ts)))"

section \<open>cleanValueExpr\<close>

text \<open>
  The loop over the interior tokens, with the counter \<open>quotes\<close>. The result is True
  when the loop leaves through \<open>return tokens\<close> (another template delimiter was found
  outside nested quotes) and False when it runs to the end. The counter is a Go int; it
  changes by one for each token, so it stays far from the 64-bit bounds and is an
  unbounded integer here.
\<close>

fun scanInside :: "int \<Rightarrow> tokens \<Rightarrow> bool" where
  "scanInside quotes [] = False"
| "scanInside quotes (tok # rest) =
     (if Type tok = TokenOQuote then scanInside (quotes + 1) rest
      else if Type tok = TokenCQuote then scanInside (quotes - 1) rest
      else if quotes > 0 then scanInside quotes rest
      else if Type tok = TokenTemplateInterp \<or> Type tok = TokenTemplateSeqEnd then True
      else scanInside quotes rest)"

definition cleanValueExpr :: "tokens \<Rightarrow> panic + tokens" where
  "cleanValueExpr ts =
     (if length ts < 5 then Inr ts
      else
        let oQuote = ts ! 0;
            oBrace = ts ! 1;
            cBrace = ts ! (length ts - 2);
            cQuote = ts ! (length ts - 1)
        in
          if Type oQuote \<noteq> TokenOQuote \<or> Type oBrace \<noteq> TokenTemplateInterp
             \<or> Type cBrace \<noteq> TokenTemplateSeqEnd \<or> Type cQuote \<noteq> TokenCQuote
          then Inr ts
          else
            (case sliceExpr ts 2 (length ts - 2) of
               Inl e \<Rightarrow> Inl e
             | Inr inside \<Rightarrow>
                 if scanInside 0 inside then Inr ts else trimNewlines inside))"

section \<open>cleanTypeExpr\<close>

definition cleanTypeExpr :: "tokens \<Rightarrow> tokens" where
  "cleanTypeExpr ts =
     (if length ts \<noteq> 3 then ts
      else
        let oQuote = ts ! 0;
            strTok = ts ! 1;
            cQuote = ts ! 2
        in
          if Type oQuote \<noteq> TokenOQuote \<or> Type strTok \<noteq> TokenQuotedLit
             \<or> Type cQuote \<noteq> TokenCQuote
          then ts
          else if Bytes strTok = ''string'' then
            [\<lparr>Type = TokenIdent, Bytes = ''string'', SpacesBefore = 0\<rparr>]
          else if Bytes strTok = ''list'' then
            [\<lparr>Type = TokenIdent, Bytes = ''list'', SpacesBefore = 0\<rparr>,
             \<lparr>Type = TokenOParen, Bytes = ''('', SpacesBefore = 0\<rparr>,
             \<lparr>Type = TokenIdent, Bytes = ''string'', SpacesBefore = 0\<rparr>,
             \<lparr>Type = TokenCParen, Bytes = '')'', SpacesBefore = 0\<rparr>]
          else if Bytes strTok = ''map'' then
            [\<lparr>Type = TokenIdent, Bytes = ''map'', SpacesBefore = 0\<rparr>,
             \<lparr>Type = TokenOParen, Bytes = ''('', SpacesBefore = 0\<rparr>,
             \<lparr>Type = TokenIdent, Bytes = ''string'', SpacesBefore = 0\<rparr>,
             \<lparr>Type = TokenCParen, Bytes = '')'', SpacesBefore = 0\<rparr>]
          else ts)"

section \<open>The document body\<close>

text \<open>
  Modelled from the spec: the parsed document of the writer package (hclwrite.Body and
  hclwrite.Block), which is not part of the repository. A body holds its attributes, each
  a name with the token sequence of its expression, and its child blocks in order, each
  with a block type, its labels and a nested body. The names of the attributes of one
  body are pairwise distinct (the parser rejects a second definition), so the attributes
  are kept as a list of entries; \<open>attr.Expr().BuildTokens(nil)\<close> reads the tokens of an
  entry and \<open>body.SetAttributeRaw(name, tokens)\<close> replaces them.

  Everything else that the file holds is the layout of the body, in the order of the
  file: for each attribute the tokens in front of its expression (comments, the name, the
  equals sign) and behind it (a comment, the line end); for each block the tokens in front
  of its body (comments, the type, the labels, the opening brace) and behind it (the
  closing brace, the line end); and the tokens that stand between them (comments, empty
  lines). The program has no access to the layout.
\<close>

datatype slot =
    AttrSlot tokens tokens
  | BlockSlot tokens tokens
  | OtherSlot tokens

datatype body =
    Body (attributes: "(string \<times> tokens) list") (blocks: "block list") (layout: "slot list")
  and block = Block (blockType: string) (blockLabels: "string list") (blockBody: body)

section \<open>The printer\<close>

text \<open>
  Modelled from the spec: the printer of the writer package (File.Bytes), which is not
  part of the repository. The tokens of a body are the tokens of its layout in order,
  with the expression of the next attribute in each attribute slot and the tokens of the
  body of the next block in each block slot.
\<close>

fun place :: "slot list \<Rightarrow> tokens list \<Rightarrow> tokens list \<Rightarrow> tokens" where
  "place [] exprs bodies = []"
| "place (AttrSlot lead trail # lay) (expr # exprs) bodies =
     lead @ expr @ trail @ place lay exprs bodies"
| "place (BlockSlot head tail # lay) exprs (inner # bodies) =
     head @ inner @ tail @ place lay exprs bodies"
| "place (OtherSlot ts # lay) exprs bodies = ts @ place lay exprs bodies"
| "place (AttrSlot lead trail # lay) [] bodies = place lay [] bodies"
| "place (BlockSlot head tail # lay) exprs [] = place lay exprs []"

fun bodyTokens :: "body \<Rightarrow> tokens"
  and blockTokens :: "block \<Rightarrow> tokens" where
  "bodyTokens (Body attrs blks lay) = place lay (map snd attrs) (map blockTokens blks)"
| "blockTokens (Block ty lbls b) = bodyTokens b"



section \<open>Go slices of strings\<close>

text \<open>
  \<open>inBlocks\<close> is a Go slice: a pointer to a backing array, a length and a capacity.
  \<open>append\<close> writes into the backing array when there is room and allocates a larger
  array otherwise, so two slices may share an array. The heap is the list of the backing
  arrays allocated so far; an address is an index of that list. The nil slice has
  capacity zero and no array.
\<close>

record slice =
  ptr :: nat
  len :: nat
  cap :: nat

type_synonym heap = "string list list"

definition nilSlice :: slice where
  "nilSlice = \<lparr>ptr = 0, len = 0, cap = 0\<rparr>"

text \<open>
  The elements of a slice, read through the heap. A slice of capacity zero has no array
  and no elements.
\<close>

definition contents :: "heap \<Rightarrow> slice \<Rightarrow> string list" where
  "contents h s = (if cap s = 0 then [] else take (len s) (h ! ptr s))"

text \<open>
  \<open>append(s, x)\<close>: with room left the element is stored behind the last one, in the
  array that \<open>s\<close> points to; otherwise the elements are copied to a new array. The
  capacity of the new array is chosen by the Go runtime, not by the program, and differs
  between versions of Go: the runtime's choice is the parameter \<open>grow\<close>, a function of
  the old capacity, and the new array has room for the appended element at least.
\<close>

definition goAppend :: "(nat \<Rightarrow> nat) \<Rightarrow> heap \<Rightarrow> slice \<Rightarrow> string \<Rightarrow> heap \<times> slice" where
  "goAppend grow h s x =
     (if len s < cap s then
        (h[ptr s := (h ! ptr s)[len s := x]], s\<lparr>len := len s + 1\<rparr>)
      else
        (let c = max (len s + 1) (grow (cap s)) in
         (h @ [contents h s @ [x] @ replicate (c - len s - 1) []],
          \<lparr>ptr = length h, len = len s + 1, cap = c\<rparr>)))"

section \<open>cleanBody\<close>

text \<open>
  The state of the walk: the heap of backing arrays, and a log of the calls of cleanBody.
  The log is not a variable of the program: each call of cleanBody adds the elements of
  its argument \<open>inBlocks\<close>, as the heap holds them when the call starts, so that the
  arguments of the recursive calls can be spoken about.
\<close>

record state =
  heap :: heap
  calls :: "string list list"

text \<open>
  The loop over the attributes. The order of a Go map iteration is not fixed; each round
  reads and replaces one attribute only, so the entries are taken in their order. A panic
  of a simplifier ends the walk.
\<close>

fun cleanAttrs :: "heap \<Rightarrow> slice \<Rightarrow> (string \<times> tokens) list \<Rightarrow> panic + (string \<times> tokens) list" where
  "cleanAttrs h inBlocks [] = Inr []"
| "cleanAttrs h inBlocks ((name, expr) # rest) =
     (if len inBlocks = 1 \<and> h ! ptr inBlocks ! 0 = ''variable'' \<and> name = ''type'' then
        (let cleanedExprTokens = cleanTypeExpr expr in
         case cleanAttrs h inBlocks rest of
           Inl e \<Rightarrow> Inl e
         | Inr rest' \<Rightarrow> Inr ((name, cleanedExprTokens) # rest'))
      else
        (case cleanValueExpr expr of
           Inl e \<Rightarrow> Inl e
         | Inr cleanedExprTokens \<Rightarrow>
             (case cleanAttrs h inBlocks rest of
                Inl e \<Rightarrow> Inl e
              | Inr rest' \<Rightarrow> Inr ((name, cleanedExprTokens) # rest'))))"

text \<open>
  cleanBody, and the loop over the child blocks of a body. The body is changed in place
  by the program; here the changed body is returned, with the state. The first argument
  is the growth policy of the runtime, for \<open>append\<close>.
\<close>

fun cleanBody :: "(nat \<Rightarrow> nat) \<Rightarrow> state \<Rightarrow> body \<Rightarrow> slice \<Rightarrow> state \<times> (panic + body)"
  and cleanBlocks ::
    "(nat \<Rightarrow> nat) \<Rightarrow> state \<Rightarrow> block list \<Rightarrow> slice \<Rightarrow> state \<times> (panic + block list)" where
  "cleanBody grow \<sigma> (Body attrs blks lay) inBlocks =
     (let \<sigma>0 = \<sigma>\<lparr>calls := calls \<sigma> @ [contents (heap \<sigma>) inBlocks]\<rparr> in
      case cleanAttrs (heap \<sigma>0) inBlocks attrs of
        Inl e \<Rightarrow> (\<sigma>0, Inl e)
      | Inr attrs' \<Rightarrow>
          (case cleanBlocks grow \<sigma>0 blks inBlocks of
             (\<sigma>1, Inl e) \<Rightarrow> (\<sigma>1, Inl e)
           | (\<sigma>1, Inr blks') \<Rightarrow> (\<sigma>1, Inr (Body attrs' blks' lay))))"
| "cleanBlocks grow \<sigma> [] inBlocks = (\<sigma>, Inr [])"
| "cleanBlocks grow \<sigma> (Block ty lbls b # rest) inBlocks =
     (case goAppend grow (heap \<sigma>) inBlocks ty of
        (h1, inBlocks') \<Rightarrow>
          (case cleanBody grow (\<sigma>\<lparr>heap := h1\<rparr>) b inBlocks' of
             (\<sigma>2, Inl e) \<Rightarrow> (\<sigma>2, Inl e)
           | (\<sigma>2, Inr b') \<Rightarrow>
               (case cleanBlocks grow \<sigma>2 rest inBlocks of
                  (\<sigma>3, Inl e) \<Rightarrow> (\<sigma>3, Inl e)
                | (\<sigma>3, Inr rest') \<Rightarrow> (\<sigma>3, Inr (Block ty lbls b' # rest')))))"

definition initState :: state where
  "initState = \<lparr>heap = [], calls = []\<rparr>"

definition cleanFile :: "(nat \<Rightarrow> nat) \<Rightarrow> body \<Rightarrow> state \<times> (panic + body)" where
  "cleanFile grow f = cleanBody grow initState f nilSlice"

section \<open>The notions of the specification\<close>

subsection \<open>Token sequences\<close>

definition isNewline :: "token \<Rightarrow> bool" where
  "isNewline t = (Type t = TokenNewline)"

definition isInterpDelim :: "token \<Rightarrow> bool" where
  "isInterpDelim t = (Type t = TokenTemplateInterp \<or> Type t = TokenTemplateSeqEnd)"

text \<open>
  The guard of the value simplifier: at least five tokens, the first an open quote, the
  second an interpolation opening, the last but one an interpolation end and the last a
  close quote.
\<close>

definition valueGuard :: "tokens \<Rightarrow> bool" where
  "valueGuard ts =
     (5 \<le> length ts \<and> Type (ts ! 0) = TokenOQuote \<and> Type (ts ! 1) = TokenTemplateInterp
      \<and> Type (ts ! (length ts - 2)) = TokenTemplateSeqEnd
      \<and> Type (ts ! (length ts - 1)) = TokenCQuote)"

text \<open>
  The guard of the type simplifier: exactly three tokens, an open quote, a quoted literal
  and a close quote.
\<close>

definition typeGuard :: "tokens \<Rightarrow> bool" where
  "typeGuard ts =
     (length ts = 3 \<and> Type (ts ! 0) = TokenOQuote \<and> Type (ts ! 1) = TokenQuotedLit
      \<and> Type (ts ! 2) = TokenCQuote)"

text \<open>The interior of a sequence: all tokens but the first two and the last two.\<close>

definition interior :: "tokens \<Rightarrow> tokens" where
  "interior ts = take (length ts - 4) (drop 2 ts)"

text \<open>
  The quote depth in front of position \<open>i\<close> of a sequence: the open quotes less the
  close quotes among the first \<open>i\<close> tokens.
\<close>

definition quoteDepth :: "tokens \<Rightarrow> nat \<Rightarrow> int" where
  "quoteDepth xs i =
     int (length (filter (\<lambda>t. Type t = TokenOQuote) (take i xs)))
     - int (length (filter (\<lambda>t. Type t = TokenCQuote) (take i xs)))"

subsection \<open>Slices and the heap\<close>

text \<open>
  A slice fits a heap when its length is within its capacity and, unless the capacity is
  zero, it points to an allocated array of that capacity.
\<close>

definition wfSlice :: "heap \<Rightarrow> slice \<Rightarrow> bool" where
  "wfSlice h s =
     (len s \<le> cap s \<and> (0 < cap s \<longrightarrow> ptr s < length h \<and> length (h ! ptr s) = cap s))"

text \<open>
  What a walk that was given the slice \<open>s\<close> may change in the heap: it may allocate
  arrays, and write to the array of \<open>s\<close> behind the elements of \<open>s\<close>.
\<close>

definition heapFrame :: "heap \<Rightarrow> slice \<Rightarrow> heap \<Rightarrow> bool" where
  "heapFrame h s h' =
     (length h \<le> length h' \<and>
      (\<forall>a < length h. length (h' ! a) = length (h ! a) \<and>
         (\<forall>i. (a = ptr s \<longrightarrow> i < len s) \<longrightarrow> h' ! a ! i = h ! a ! i)))"

subsection \<open>The walk with the context passed as a value\<close>

text \<open>
  The walk as the specification words it: the enclosing block types are a list, and each
  child block is visited with that list extended by the type of the block.
\<close>

fun cleanAttrsSpec :: "string list \<Rightarrow> (string \<times> tokens) list \<Rightarrow> panic + (string \<times> tokens) list" where
  "cleanAttrsSpec ctx [] = Inr []"
| "cleanAttrsSpec ctx ((name, expr) # rest) =
     (case (if ctx = [''variable''] \<and> name = ''type'' then Inr (cleanTypeExpr expr)
            else cleanValueExpr expr) of
        Inl e \<Rightarrow> Inl e
      | Inr cleaned \<Rightarrow>
          (case cleanAttrsSpec ctx rest of
             Inl e \<Rightarrow> Inl e
           | Inr rest' \<Rightarrow> Inr ((name, cleaned) # rest')))"

fun cleanBodySpec :: "string list \<Rightarrow> body \<Rightarrow> panic + body"
  and cleanBlocksSpec :: "string list \<Rightarrow> block list \<Rightarrow> panic + block list" where
  "cleanBodySpec ctx (Body attrs blks lay) =
     (case cleanAttrsSpec ctx attrs of
        Inl e \<Rightarrow> Inl e
      | Inr attrs' \<Rightarrow>
          (case cleanBlocksSpec ctx blks of
             Inl e \<Rightarrow> Inl e
           | Inr blks' \<Rightarrow> Inr (Body attrs' blks' lay)))"
| "cleanBlocksSpec ctx [] = Inr []"
| "cleanBlocksSpec ctx (Block ty lbls b # rest) =
     (case cleanBodySpec (ctx @ [ty]) b of
        Inl e \<Rightarrow> Inl e
      | Inr b' \<Rightarrow>
          (case cleanBlocksSpec ctx rest of
             Inl e \<Rightarrow> Inl e
           | Inr rest' \<Rightarrow> Inr (Block ty lbls b' # rest')))"

text \<open>
  The contexts of the visits of a walk, in the order of the visits: the body itself with
  the given context, then each child block with the context extended by its type.
\<close>

fun callsSpec :: "string list \<Rightarrow> body \<Rightarrow> string list list"
  and callsBlocksSpec :: "string list \<Rightarrow> block list \<Rightarrow> string list list" where
  "callsSpec ctx (Body attrs blks lay) = ctx # callsBlocksSpec ctx blks"
| "callsBlocksSpec ctx [] = []"
| "callsBlocksSpec ctx (Block ty lbls b # rest) =
     callsSpec (ctx @ [ty]) b @ callsBlocksSpec ctx rest"

text \<open>
  The attributes of a body and of its descendants, each with the types of the blocks that
  enclose it, from the outermost.
\<close>

fun attrsAt :: "string list \<Rightarrow> body \<Rightarrow> (string list \<times> string \<times> tokens) list"
  and attrsAtBlocks :: "string list \<Rightarrow> block list \<Rightarrow> (string list \<times> string \<times> tokens) list" where
  "attrsAt ctx (Body attrs blks lay) =
     map (\<lambda>(name, expr). (ctx, name, expr)) attrs @ attrsAtBlocks ctx blks"
| "attrsAtBlocks ctx [] = []"
| "attrsAtBlocks ctx (Block ty lbls b # rest) =
     attrsAt (ctx @ [ty]) b @ attrsAtBlocks ctx rest"

text \<open>
  How an attribute is routed: to the type simplifier when the context is the single entry
  \<open>variable\<close> and the name is \<open>type\<close>, to the value simplifier otherwise. The second
  argument is the attribute after the walk.
\<close>

fun routed :: "string list \<times> string \<times> tokens \<Rightarrow> string list \<times> string \<times> tokens \<Rightarrow> bool" where
  "routed (ctx, name, expr) (ctx', name', expr') =
     (ctx' = ctx \<and> name' = name \<and>
      (if ctx = [''variable''] \<and> name = ''type'' then expr' = cleanTypeExpr expr
       else cleanValueExpr expr = Inr expr'))"






section \<open>Example token sequences\<close>

text \<open>The tokens of the examples, as the tokenizer yields them, with no space before.\<close>

definition tok :: "tokenType \<Rightarrow> string \<Rightarrow> token" where
  "tok ty bs = \<lparr>Type = ty, Bytes = bs, SpacesBefore = 0\<rparr>"

definition oQuoteTok :: token where
  "oQuoteTok = tok TokenOQuote [CHR 0x22]"

definition cQuoteTok :: token where
  "cQuoteTok = tok TokenCQuote [CHR 0x22]"

definition interpTok :: token where
  "interpTok = tok TokenTemplateInterp ''${''"

definition seqEndTok :: token where
  "seqEndTok = tok TokenTemplateSeqEnd ''}''"

definition newlineTok :: token where
  "newlineTok = tok TokenNewline [CHR 0x0A]"

text \<open>The tokens of a quoted template with the single interpolation of \<open>foo\<close>.\<close>

definition exFoo :: tokens where
  "exFoo = [oQuoteTok, interpTok, tok TokenIdent ''foo'', seqEndTok, cQuoteTok]"

text \<open>The tokens of a quoted template with the interpolations of \<open>foo\<close> and of \<open>bar\<close>.\<close>

definition exFooBar :: tokens where
  "exFooBar =
     [oQuoteTok, interpTok, tok TokenIdent ''foo'', seqEndTok,
      interpTok, tok TokenIdent ''bar'', seqEndTok, cQuoteTok]"

text \<open>The tokens of the call of \<open>foo\<close> on a quoted template that interpolates \<open>bar\<close>.\<close>

definition exCall :: tokens where
  "exCall =
     [tok TokenIdent ''foo'', tok TokenOParen ''('',
      oQuoteTok, interpTok, tok TokenIdent ''bar'', seqEndTok, cQuoteTok,
      tok TokenCParen '')'']"

text \<open>A quoted template with one interpolation around a sequence.\<close>

definition wrap :: "tokens \<Rightarrow> tokens" where
  "wrap ts = [oQuoteTok, interpTok] @ ts @ [seqEndTok, cQuoteTok]"

text \<open>A quoted string with the given literal text.\<close>

definition quoted :: "string \<Rightarrow> tokens" where
  "quoted s = [oQuoteTok, tok TokenQuotedLit s, cQuoteTok]"

text \<open>
  The layout of the examples: an attribute slot with the name and the equals sign in
  front and the line end behind, a block slot with the type, the labels and the braces,
  and a comment. The kinds of the equals sign, of the braces and of a comment are other
  kinds of the tokenizer, given by their rune codes.
\<close>

definition attrSlot :: "string \<Rightarrow> slot" where
  "attrSlot name = AttrSlot [tok TokenIdent name, tok (TokenOther 61) ''=''] [newlineTok]"

definition blockSlot :: "string \<Rightarrow> string list \<Rightarrow> slot" where
  "blockSlot ty lbls =
     BlockSlot (tok TokenIdent ty # map (tok TokenIdent) lbls
                @ [tok (TokenOther 123) ''{'', newlineTok])
       [tok (TokenOther 125) ''}'', newlineTok]"

definition commentSlot :: slot where
  "commentSlot = OtherSlot [tok (TokenOther 67) (''# note'' @ [CHR 0x0A])]"

text \<open>A growth policy for the examples: the capacity is doubled.\<close>

definition doubling :: "nat \<Rightarrow> nat" where
  "doubling c = 2 * c"

text \<open>
  A document: a comment and an attribute at the top, a \<open>variable\<close> block with a \<open>type\<close>
  attribute, a block nested in it with a \<open>type\<close> attribute, and a \<open>resource\<close> block
  with a \<open>type\<close> attribute. After it, the document that the walk makes of it.
\<close>

definition exBody :: body where
  "exBody =
     Body [(''name'', wrap [tok TokenIdent ''foo''])]
       [Block ''variable'' [''a'']
          (Body [(''type'', quoted ''list''), (''default'', quoted ''x'')]
             [Block ''nested'' [] (Body [(''type'', quoted ''map'')] [] [attrSlot ''type''])]
             [attrSlot ''type'', attrSlot ''default'', blockSlot ''nested'' []]),
        Block ''resource'' [''r'', ''x'']
          (Body [(''type'', quoted ''string''), (''count'', exFoo)] []
             [attrSlot ''type'', commentSlot, attrSlot ''count''])]
       [commentSlot, attrSlot ''name'', blockSlot ''variable'' [''a''],
        blockSlot ''resource'' [''r'', ''x'']]"

definition exBodyCleaned :: body where
  "exBodyCleaned =
     Body [(''name'', [tok TokenIdent ''foo''])]
       [Block ''variable'' [''a'']
          (Body [(''type'', [tok TokenIdent ''list'', tok TokenOParen ''('',
                            tok TokenIdent ''string'', tok TokenCParen '')'']),
                 (''default'', quoted ''x'')]
             [Block ''nested'' [] (Body [(''type'', quoted ''map'')] [] [attrSlot ''type''])]
             [attrSlot ''type'', attrSlot ''default'', blockSlot ''nested'' []]),
        Block ''resource'' [''r'', ''x'']
          (Body [(''type'', quoted ''string''), (''count'', [tok TokenIdent ''foo''])] []
             [attrSlot ''type'', commentSlot, attrSlot ''count''])]
       [commentSlot, attrSlot ''name'', blockSlot ''variable'' [''a''],
        blockSlot ''resource'' [''r'', ''x'']]"

text \<open>
  A document with blocks nested four deep, the innermost two side by side: with the
  doubling policy the slices of these two share a backing array.
\<close>

definition exDeep :: body where
  "exDeep =
     Body []
       [Block ''a'' []
          (Body []
             [Block ''b'' []
                (Body []
                   [Block ''c'' []
                      (Body []
                         [Block ''d'' [] (Body [(''x'', exFoo)] [] [attrSlot ''x'']),
                          Block ''e'' [] (Body [(''y'', exFooBar)] [] [attrSlot ''y''])]
                         [blockSlot ''d'' [], blockSlot ''e'' []])]
                   [blockSlot ''c'' []])]
             [blockSlot ''b'' []])]
       [blockSlot ''a'' []]"


section \<open>Properties of the loops and of the simplifiers\<close>

lemma startLoop_takeWhile:
  "start \<le> length ts \<Longrightarrow>
   startLoop ts start = start + length (takeWhile isNewline (drop start ts))"
proof (induction ts start rule: startLoop.induct)
  case (1 ts start)
  show ?case
  proof (cases "start < length ts")
    case True
    then have d: "drop start ts = ts ! start # drop (Suc start) ts"
      by (simp add: Cons_nth_drop_Suc)
    show ?thesis
    proof (cases "Type (ts ! start) \<noteq> TokenNewline")
      case True
      with \<open>start < length ts\<close> d show ?thesis
        by (subst startLoop.simps) (simp add: isNewline_def)
    next
      case False
      with \<open>start < length ts\<close>
      have "startLoop ts (start + 1) =
            start + 1 + length (takeWhile isNewline (drop (start + 1) ts))"
        using "1.IH" by simp
      with False \<open>start < length ts\<close> d show ?thesis
        by (subst startLoop.simps) (simp add: isNewline_def)
    qed
  next
    case False
    with "1.prems" show ?thesis
      by (subst startLoop.simps) simp
  qed
qed

lemma endLoop_takeWhile:
  "e \<le> length ts \<Longrightarrow> endLoop ts e = e - length (takeWhile isNewline (rev (take e ts)))"
proof (induction e)
  case 0
  then show ?case by simp
next
  case (Suc e)
  then have t: "take (Suc e) ts = take e ts @ [ts ! e]"
    by (simp add: take_Suc_conv_app_nth)
  from Suc show ?case
    by (simp add: t isNewline_def)
qed

lemma trimNewlines_eq:
  "trimNewlines ts =
     (if ts = [] then Inr []
      else if list_all isNewline ts then Inl (SliceBoundsOutOfRange (length ts) 0)
      else Inr (rev (dropWhile isNewline (rev (dropWhile isNewline ts)))))"
proof (cases "ts = []")
  case True
  then show ?thesis by (simp add: trimNewlines_def)
next
  case False
  define a where "a = length (takeWhile isNewline ts)"
  define b where "b = length (takeWhile isNewline (rev ts))"
  have s: "startLoop ts 0 = a"
    by (simp add: startLoop_takeWhile a_def)
  have e: "endLoop ts (length ts) = length ts - b"
    by (simp add: endLoop_takeWhile b_def)
  show ?thesis
  proof (cases "list_all isNewline ts")
    case True
    then have "\<forall>x\<in>set ts. isNewline x"
      by (simp add: list_all_iff)
    then have "takeWhile isNewline ts = ts" "takeWhile isNewline (rev ts) = rev ts"
      by (simp_all only: takeWhile_eq_all_conv set_rev)
    then have "a = length ts" "b = length ts"
      by (simp_all only: a_def b_def length_rev)
    with False True s e show ?thesis
      by (simp add: trimNewlines_def sliceExpr_def)
  next
    case nall: False
    define xs where "xs = dropWhile isNewline ts"
    have xs: "xs = drop a ts"
      by (simp add: xs_def a_def dropWhile_eq_drop)
    from nall have ne: "xs \<noteq> []"
      by (simp add: xs_def list_all_iff)
    then have hd: "\<not> isNewline (hd xs)"
      unfolding xs_def by (rule hd_dropWhile)
    have "rev ts = rev xs @ rev (takeWhile isNewline ts)"
      by (simp add: xs_def flip: rev_append)
    moreover have "hd xs \<in> set (rev xs)"
      using ne by simp
    ultimately have tw: "takeWhile isNewline (rev ts) = takeWhile isNewline (rev xs)"
      using hd by (simp add: takeWhile_append1)
    have al: "a \<le> length ts"
      by (simp add: a_def length_takeWhile_le)
    have lx: "length xs = length ts - a"
      by (simp add: xs)
    have "b \<le> length xs"
      using length_takeWhile_le [of isNewline "rev xs"] by (simp add: b_def tw)
    then have ab: "a \<le> length ts - b"
      using al lx by arith
    have "rev (dropWhile isNewline (rev xs)) = rev (drop b (rev xs))"
      by (simp add: b_def tw dropWhile_eq_drop)
    also have "\<dots> = take (length xs - b) xs"
      by (simp add: rev_drop)
    also have "\<dots> = take (length ts - b - a) (drop a ts)"
      using lx xs by (simp add: add.commute)
    finally have r: "rev (dropWhile isNewline (rev xs)) = take (length ts - b - a) (drop a ts)" .
    from False nall s e ab r show ?thesis
      by (simp add: trimNewlines_def sliceExpr_def xs_def)
  qed
qed

lemma rev_dropWhile_split:
  "xs = rev (dropWhile P (rev xs)) @ rev (takeWhile P (rev xs))"
proof -
  have "rev (rev xs) = rev (takeWhile P (rev xs) @ dropWhile P (rev xs))"
    by (simp only: takeWhile_dropWhile_id)
  then show ?thesis
    by (simp only: rev_append rev_rev_ident)
qed

lemma trimNewlines_Inr:
  assumes "trimNewlines ts = Inr r"
  shows "\<exists>a b. ts = a @ r @ b \<and> list_all isNewline a \<and> list_all isNewline b"
proof (cases "ts = []")
  case True
  with assms show ?thesis by (simp add: trimNewlines_eq)
next
  case False
  define xs where "xs = dropWhile isNewline ts"
  define a where "a = takeWhile isNewline ts"
  define b where "b = rev (takeWhile isNewline (rev xs))"
  from assms False have r: "r = rev (dropWhile isNewline (rev xs))"
    by (simp add: trimNewlines_eq xs_def split: if_splits)
  have "xs = r @ b"
    unfolding r b_def by (rule rev_dropWhile_split)
  moreover have "ts = a @ xs"
    by (simp add: xs_def a_def)
  ultimately have "ts = a @ r @ b"
    by simp
  moreover have "list_all isNewline a"
    by (auto simp: a_def list_all_iff dest: set_takeWhileD)
  moreover have "list_all isNewline b"
    by (auto simp: b_def list_all_iff dest: set_takeWhileD)
  ultimately show ?thesis by blast
qed

lemma trimNewlines_length: "trimNewlines ts = Inr r \<Longrightarrow> length r \<le> length ts"
  using trimNewlines_Inr [of ts r] by auto

lemma trimNewlines_ends:
  assumes "trimNewlines ts = Inr r" "ts \<noteq> []"
  shows "r \<noteq> [] \<and> \<not> isNewline (hd r) \<and> \<not> isNewline (last r)"
proof -
  define xs where "xs = dropWhile isNewline ts"
  from assms have nall: "\<not> list_all isNewline ts"
    and r: "r = rev (dropWhile isNewline (rev xs))"
    by (simp_all add: trimNewlines_eq xs_def split: if_splits)
  from nall have ne: "xs \<noteq> []"
    by (simp add: xs_def list_all_iff)
  then have hd: "\<not> isNewline (hd xs)"
    unfolding xs_def by (rule hd_dropWhile)
  have "hd xs \<in> set (rev xs)"
    using ne by simp
  with hd have d: "dropWhile isNewline (rev xs) \<noteq> []"
    by auto
  then have l: "\<not> isNewline (last r)"
    unfolding r by (simp add: last_rev hd_dropWhile)
  from d have rne: "r \<noteq> []"
    by (simp add: r)
  define c where "c = rev (takeWhile isNewline (rev xs))"
  have "xs = r @ c"
    unfolding r c_def by (rule rev_dropWhile_split)
  with rne have "hd xs = hd r"
    by simp
  with hd l rne show ?thesis by simp
qed

lemma sliceExpr_interior: "5 \<le> length ts \<Longrightarrow> sliceExpr ts 2 (length ts - 2) = Inr (interior ts)"
  by (simp add: sliceExpr_def interior_def)

lemma cleanValueExpr_eq:
  "cleanValueExpr ts =
     (if valueGuard ts \<and> \<not> scanInside 0 (interior ts) then trimNewlines (interior ts)
      else Inr ts)"
  by (simp add: cleanValueExpr_def valueGuard_def Let_def sliceExpr_interior)

lemma quoteDepth_0: "quoteDepth xs 0 = 0"
  by (simp add: quoteDepth_def)

lemma quoteDepth_Suc:
  "quoteDepth (x # xs) (Suc i) =
     (if Type x = TokenOQuote then 1 else if Type x = TokenCQuote then - 1 else 0)
     + quoteDepth xs i"
  by (simp add: quoteDepth_def)

lemma ex_less_Suc: "(\<exists>i<Suc n. P i) = (P 0 \<or> (\<exists>i<n. P (Suc i)))"
  by (metis less_Suc_eq_0_disj)

lemma scanInside_iff:
  "scanInside q xs = (\<exists>i<length xs. isInterpDelim (xs ! i) \<and> q + quoteDepth xs i \<le> 0)"
proof (induction xs arbitrary: q)
  case Nil
  then show ?case by simp
next
  case (Cons x xs)
  show ?case
    by (simp add: Cons.IH ex_less_Suc quoteDepth_0 quoteDepth_Suc isInterpDelim_def
        algebra_simps)
qed

lemma interior_length: "length (interior ts) = length ts - 4"
  by (simp add: interior_def)

lemma cleanValueExpr_length: "cleanValueExpr ts = Inr r \<Longrightarrow> length r \<le> length ts"
  using trimNewlines_length [of "interior ts" r]
  by (auto simp: cleanValueExpr_eq interior_length split: if_splits)

lemma cleanValueExpr_shorter:
  "valueGuard ts \<Longrightarrow> \<not> scanInside 0 (interior ts) \<Longrightarrow> cleanValueExpr ts \<noteq> Inr ts"
  using trimNewlines_length [of "interior ts" ts]
  by (auto simp: cleanValueExpr_eq interior_length valueGuard_def)

lemmas ex_defs = tok_def oQuoteTok_def cQuoteTok_def interpTok_def seqEndTok_def newlineTok_def
  exFoo_def exFooBar_def exCall_def wrap_def quoted_def

lemma cleanTypeExpr_idem: "cleanTypeExpr (cleanTypeExpr ts) = cleanTypeExpr ts"
  by (simp add: cleanTypeExpr_def Let_def)

lemma cleanValueExpr_fixed_iff:
  "cleanValueExpr r = Inr r \<longleftrightarrow> \<not> (valueGuard r \<and> \<not> scanInside 0 (interior r))"
  using cleanValueExpr_shorter [of r] by (auto simp: cleanValueExpr_eq)


lemma cleanValueExpr_panics_on_newline:
  "cleanValueExpr (wrap [newlineTok]) = Inl (SliceBoundsOutOfRange 1 0)"
  by (simp add: trimNewlines_eq cleanValueExpr_eq valueGuard_def interior_def isNewline_def
      ex_defs)

section \<open>Properties of slices and of the walk\<close>

lemma heapFrame_refl: "heapFrame h s h"
  by (simp add: heapFrame_def)

lemma heapFrame_trans: "heapFrame h s h1 \<Longrightarrow> heapFrame h1 s h2 \<Longrightarrow> heapFrame h s h2"
  by (auto simp: heapFrame_def)

lemma heapFrame_wf: "wfSlice h s \<Longrightarrow> heapFrame h s h' \<Longrightarrow> wfSlice h' s"
  by (auto simp: heapFrame_def wfSlice_def)

lemma heapFrame_contents:
  assumes "wfSlice h s" "heapFrame h s h'"
  shows "contents h' s = contents h s"
proof (cases "cap s = 0")
  case True
  then show ?thesis by (simp add: contents_def)
next
  case False
  with assms have "take (len s) (h' ! ptr s) = take (len s) (h ! ptr s)"
    unfolding wfSlice_def heapFrame_def
    by (intro nth_take_lemma) auto
  with False show ?thesis
    by (simp add: contents_def)
qed

lemma goAppend_contents:
  assumes "wfSlice h s" "goAppend g h s x = (h1, s1)"
  shows "contents h1 s1 = contents h s @ [x]"
  using assms
  by (auto simp: goAppend_def contents_def wfSlice_def take_Suc_conv_app_nth Let_def
      split: if_splits)

lemma goAppend_wf:
  assumes "wfSlice h s" "goAppend g h s x = (h1, s1)"
  shows "wfSlice h1 s1"
  using assms
  by (auto simp: goAppend_def contents_def wfSlice_def Let_def nth_append split: if_splits)

lemma goAppend_frame:
  assumes "wfSlice h s" "goAppend g h s x = (h1, s1)" "heapFrame h1 s1 h2"
  shows "heapFrame h s h2"
  using assms
  by (auto simp: goAppend_def wfSlice_def heapFrame_def Let_def nth_append nth_list_update
      split: if_splits)

lemma dispatch_contents:
  assumes "wfSlice h s"
  shows "(len s = 1 \<and> h ! ptr s ! 0 = ''variable'') = (contents h s = [''variable''])"
proof (cases "len s = 1")
  case True
  with assms have c: "0 < cap s" and "0 < length (h ! ptr s)"
    by (simp_all add: wfSlice_def)
  then have "take 1 (h ! ptr s) = [h ! ptr s ! 0]"
    by (cases "h ! ptr s") simp_all
  with True c show ?thesis
    by (simp add: contents_def)
next
  case False
  have "length (contents h s) \<noteq> 1"
  proof (cases "0 < cap s")
    case True
    with assms False show ?thesis
      by (simp add: wfSlice_def contents_def)
  next
    case False
    then show ?thesis
      by (simp add: contents_def)
  qed
  then have "contents h s \<noteq> [''variable'']"
    by auto
  with False show ?thesis by simp
qed

lemma cleanAttrs_spec:
  assumes "wfSlice h s"
  shows "cleanAttrs h s attrs = cleanAttrsSpec (contents h s) attrs"
proof (induction attrs)
  case Nil
  show ?case by simp
next
  case (Cons a attrs)
  obtain name expr where a: "a = (name, expr)"
    by (cases a)
  show ?case
    unfolding a
    by (simp add: Cons.IH dispatch_contents [OF assms, symmetric] split: sum.splits)
qed

text \<open>
  The walk on the heap against the walk with the context passed as a value: the heap
  changes within the frame of the slice, the outcome is that of the value-passing walk on
  the elements of the slice, and the log grows by the contexts of that walk (by a prefix
  of them when the walk panics).
\<close>

lemma walk_inv:
  "wfSlice (heap \<sigma>) s \<Longrightarrow> cleanBody g \<sigma> b s = (\<sigma>', r) \<Longrightarrow>
     heapFrame (heap \<sigma>) s (heap \<sigma>')
     \<and> r = cleanBodySpec (contents (heap \<sigma>) s) b
     \<and> (\<exists>p. calls \<sigma>' = calls \<sigma> @ p \<and> prefix p (callsSpec (contents (heap \<sigma>) s) b)
            \<and> (\<forall>x. r = Inr x \<longrightarrow> p = callsSpec (contents (heap \<sigma>) s) b))"
  "wfSlice (heap \<sigma>) s \<Longrightarrow> cleanBlocks g \<sigma> blks s = (\<sigma>', rs) \<Longrightarrow>
     heapFrame (heap \<sigma>) s (heap \<sigma>')
     \<and> rs = cleanBlocksSpec (contents (heap \<sigma>) s) blks
     \<and> (\<exists>p. calls \<sigma>' = calls \<sigma> @ p \<and> prefix p (callsBlocksSpec (contents (heap \<sigma>) s) blks)
            \<and> (\<forall>x. rs = Inr x \<longrightarrow> p = callsBlocksSpec (contents (heap \<sigma>) s) blks))"
proof (induction g \<sigma> b s and g \<sigma> blks s arbitrary: \<sigma>' r and \<sigma>' rs
    rule: cleanBody_cleanBlocks.induct)
  case (1 g \<sigma> attrs blks lay inBlocks)
  define ctx where "ctx = contents (heap \<sigma>) inBlocks"
  define \<sigma>0 where "\<sigma>0 = \<sigma>\<lparr>calls := calls \<sigma> @ [contents (heap \<sigma>) inBlocks]\<rparr>"
  have h0: "heap \<sigma>0 = heap \<sigma>" and c0: "calls \<sigma>0 = calls \<sigma> @ [ctx]"
    by (simp_all add: \<sigma>0_def ctx_def)
  have w0: "wfSlice (heap \<sigma>0) inBlocks"
    using "1.prems"(1) by (simp add: h0)
  have as: "cleanAttrs (heap \<sigma>0) inBlocks attrs = cleanAttrsSpec ctx attrs"
    using cleanAttrs_spec [OF w0] by (simp add: h0 ctx_def)
  show ?case
  proof (cases "cleanAttrsSpec ctx attrs")
    case (Inl e)
    with "1.prems"(2) as have "\<sigma>' = \<sigma>0" "r = Inl e"
      by (simp_all add: \<sigma>0_def Let_def)
    with Inl show ?thesis
      by (simp add: h0 c0 heapFrame_refl flip: ctx_def)
  next
    case (Inr attrs')
    obtain \<sigma>1 r1 where c: "cleanBlocks g \<sigma>0 blks inBlocks = (\<sigma>1, r1)"
      by (cases "cleanBlocks g \<sigma>0 blks inBlocks")
    from "1.prems"(2) Inr as c
    have s': "\<sigma>' = \<sigma>1"
      and r: "r = (case r1 of Inl e \<Rightarrow> Inl e | Inr blks' \<Rightarrow> Inr (Body attrs' blks' lay))"
      by (auto simp: \<sigma>0_def Let_def split: sum.splits)
    from Inr as have "cleanAttrs (heap \<sigma>0) inBlocks attrs = Inr attrs'"
      by simp
    from "1.IH" [OF \<sigma>0_def this w0 c]
    have f: "heapFrame (heap \<sigma>) inBlocks (heap \<sigma>1)"
      and r1: "r1 = cleanBlocksSpec ctx blks"
      and l: "\<exists>p. calls \<sigma>1 = calls \<sigma>0 @ p \<and> prefix p (callsBlocksSpec ctx blks)
            \<and> (\<forall>x. r1 = Inr x \<longrightarrow> p = callsBlocksSpec ctx blks)"
      by (auto simp add: h0 simp flip: ctx_def)
    from l obtain p where p: "calls \<sigma>1 = calls \<sigma>0 @ p" "prefix p (callsBlocksSpec ctx blks)"
      "\<forall>x. r1 = Inr x \<longrightarrow> p = callsBlocksSpec ctx blks"
      by blast
    have "calls \<sigma>' = calls \<sigma> @ (ctx # p) \<and> prefix (ctx # p) (callsSpec ctx (Body attrs blks lay))
          \<and> (\<forall>x. r = Inr x \<longrightarrow> ctx # p = callsSpec ctx (Body attrs blks lay))"
      using p by (auto simp: s' c0 r split: sum.splits)
    then have "\<exists>q. calls \<sigma>' = calls \<sigma> @ q \<and> prefix q (callsSpec ctx (Body attrs blks lay))
          \<and> (\<forall>x. r = Inr x \<longrightarrow> q = callsSpec ctx (Body attrs blks lay))"
      by blast
    moreover have "r = cleanBodySpec ctx (Body attrs blks lay)"
      by (simp add: r Inr r1)
    ultimately show ?thesis
      using f by (simp add: s' flip: ctx_def)
  qed
next
  case (2 g \<sigma> inBlocks)
  then show ?case by (simp add: heapFrame_refl)
next
  case (3 g \<sigma> ty lbls b rest inBlocks)
  define ctx where "ctx = contents (heap \<sigma>) inBlocks"
  obtain h1 s1 where a: "goAppend g (heap \<sigma>) inBlocks ty = (h1, s1)"
    by (cases "goAppend g (heap \<sigma>) inBlocks ty")
  obtain \<sigma>2 r2 where c: "cleanBody g (\<sigma>\<lparr>heap := h1\<rparr>) b s1 = (\<sigma>2, r2)"
    by (cases "cleanBody g (\<sigma>\<lparr>heap := h1\<rparr>) b s1")
  have w1: "wfSlice (heap (\<sigma>\<lparr>heap := h1\<rparr>)) s1"
    using goAppend_wf [OF "3.prems"(1) a] by simp
  have c1: "contents h1 s1 = ctx @ [ty]"
    using goAppend_contents [OF "3.prems"(1) a] by (simp add: ctx_def)
  from "3.IH"(1) [OF a [symmetric] w1 c]
  have f1: "heapFrame h1 s1 (heap \<sigma>2)"
    and r2: "r2 = cleanBodySpec (ctx @ [ty]) b"
    and l2: "\<exists>p. calls \<sigma>2 = calls \<sigma> @ p \<and> prefix p (callsSpec (ctx @ [ty]) b)
            \<and> (\<forall>x. r2 = Inr x \<longrightarrow> p = callsSpec (ctx @ [ty]) b)"
    by (auto simp add: c1)
  from l2 obtain p2 where p2: "calls \<sigma>2 = calls \<sigma> @ p2" "prefix p2 (callsSpec (ctx @ [ty]) b)"
      "\<forall>x. r2 = Inr x \<longrightarrow> p2 = callsSpec (ctx @ [ty]) b"
    by blast
  have f2: "heapFrame (heap \<sigma>) inBlocks (heap \<sigma>2)"
    using goAppend_frame [OF "3.prems"(1) a f1] .
  show ?case
  proof (cases r2)
    case (Inl e)
    with "3.prems"(2) a c have s': "\<sigma>' = \<sigma>2" and rs: "rs = Inl e"
      by simp_all
    have "rs = cleanBlocksSpec ctx (Block ty lbls b # rest)"
      using Inl r2 by (simp add: rs)
    moreover have "calls \<sigma>' = calls \<sigma> @ p2
        \<and> prefix p2 (callsBlocksSpec ctx (Block ty lbls b # rest))
        \<and> (\<forall>x. rs = Inr x \<longrightarrow> p2 = callsBlocksSpec ctx (Block ty lbls b # rest))"
      using p2 by (simp add: s' rs prefix_prefix)
    then have "\<exists>q. calls \<sigma>' = calls \<sigma> @ q
        \<and> prefix q (callsBlocksSpec ctx (Block ty lbls b # rest))
        \<and> (\<forall>x. rs = Inr x \<longrightarrow> q = callsBlocksSpec ctx (Block ty lbls b # rest))"
      by blast
    ultimately show ?thesis
      using f2 by (simp add: s' flip: ctx_def)
  next
    case (Inr b')
    obtain \<sigma>3 r3 where d: "cleanBlocks g \<sigma>2 rest inBlocks = (\<sigma>3, r3)"
      by (cases "cleanBlocks g \<sigma>2 rest inBlocks")
    have w2: "wfSlice (heap \<sigma>2) inBlocks"
      using heapFrame_wf [OF "3.prems"(1) f2] .
    have c2: "contents (heap \<sigma>2) inBlocks = ctx"
      using heapFrame_contents [OF "3.prems"(1) f2] by (simp add: ctx_def)
    from "3.IH"(2) [OF a [symmetric] c [symmetric] Inr w2 d]
    have f3: "heapFrame (heap \<sigma>2) inBlocks (heap \<sigma>3)"
      and r3: "r3 = cleanBlocksSpec ctx rest"
      and l3: "\<exists>p. calls \<sigma>3 = calls \<sigma>2 @ p \<and> prefix p (callsBlocksSpec ctx rest)
            \<and> (\<forall>x. r3 = Inr x \<longrightarrow> p = callsBlocksSpec ctx rest)"
      by (auto simp add: c2)
    from l3 obtain p3 where p3: "calls \<sigma>3 = calls \<sigma>2 @ p3" "prefix p3 (callsBlocksSpec ctx rest)"
      "\<forall>x. r3 = Inr x \<longrightarrow> p3 = callsBlocksSpec ctx rest"
      by blast
    from "3.prems"(2) a c Inr d
    have s': "\<sigma>' = \<sigma>3"
      and rs: "rs = (case r3 of Inl e \<Rightarrow> Inl e | Inr rest' \<Rightarrow> Inr (Block ty lbls b' # rest'))"
      by (auto split: sum.splits)
    have pc: "p2 = callsSpec (ctx @ [ty]) b"
      using p2(3) Inr by simp
    have "calls \<sigma>' = calls \<sigma> @ (p2 @ p3)
        \<and> prefix (p2 @ p3) (callsBlocksSpec ctx (Block ty lbls b # rest))
        \<and> (\<forall>x. rs = Inr x \<longrightarrow> p2 @ p3 = callsBlocksSpec ctx (Block ty lbls b # rest))"
      using p2(1) p3 by (auto simp: s' rs pc split: sum.splits)
    then have "\<exists>q. calls \<sigma>' = calls \<sigma> @ q
        \<and> prefix q (callsBlocksSpec ctx (Block ty lbls b # rest))
        \<and> (\<forall>x. rs = Inr x \<longrightarrow> q = callsBlocksSpec ctx (Block ty lbls b # rest))"
      by blast
    moreover have "rs = cleanBlocksSpec ctx (Block ty lbls b # rest)"
      using Inr r2 r3 by (simp add: rs)
    moreover have "heapFrame (heap \<sigma>) inBlocks (heap \<sigma>3)"
      using f2 f3 by (rule heapFrame_trans)
    ultimately show ?thesis
      by (simp add: s' flip: ctx_def)
  qed
qed

lemma cleanAttrsSpec_routed:
  "cleanAttrsSpec ctx attrs = Inr attrs' \<Longrightarrow>
   list_all2 routed (map (\<lambda>(name, expr). (ctx, name, expr)) attrs)
     (map (\<lambda>(name, expr). (ctx, name, expr)) attrs')"
proof (induction attrs arbitrary: attrs')
  case Nil
  then show ?case by simp
next
  case (Cons a attrs)
  obtain name expr where a: "a = (name, expr)"
    by (cases a)
  from Cons.prems Cons.IH show ?case
    unfolding a by (auto split: sum.splits if_splits)
qed

lemma cleanBodySpec_routed:
  "cleanBodySpec ctx b = Inr b' \<Longrightarrow> list_all2 routed (attrsAt ctx b) (attrsAt ctx b')"
  "cleanBlocksSpec ctx blks = Inr blks' \<Longrightarrow>
   list_all2 routed (attrsAtBlocks ctx blks) (attrsAtBlocks ctx blks')"
proof (induction ctx b and ctx blks arbitrary: b' and blks'
    rule: cleanBodySpec_cleanBlocksSpec.induct)
  case (1 ctx attrs blks lay)
  from "1.prems" obtain attrs' blks' where
    a: "cleanAttrsSpec ctx attrs = Inr attrs'" and
    b: "cleanBlocksSpec ctx blks = Inr blks'" and
    r: "b' = Body attrs' blks' lay"
    by (auto split: sum.splits)
  from "1.IH" [OF a b] cleanAttrsSpec_routed [OF a] show ?case
    by (simp add: r list_all2_appendI)
next
  case (2 ctx)
  then show ?case by simp
next
  case (3 ctx ty lbls b rest)
  from "3.prems" obtain c rest' where
    a: "cleanBodySpec (ctx @ [ty]) b = Inr c" and
    b: "cleanBlocksSpec ctx rest = Inr rest'" and
    r: "blks' = Block ty lbls c # rest'"
    by (auto split: sum.splits)
  from "3.IH"(1) [OF a] "3.IH"(2) [OF a b] show ?case
    by (simp add: r list_all2_appendI)
qed








text \<open>The walk on the example documents.\<close>

lemmas walk_defs = initState_def nilSlice_def goAppend_def contents_def doubling_def
  cleanValueExpr_eq cleanTypeExpr_def trimNewlines_eq valueGuard_def typeGuard_def
  interior_def isNewline_def wfSlice_def Let_def


lemma exBody_cleaned: "snd (cleanBody doubling initState exBody nilSlice) = Inr exBodyCleaned"
  by (simp add: exBody_def exBodyCleaned_def walk_defs ex_defs)

lemma exDeep_calls:
  "calls (fst (cleanBody doubling initState exDeep nilSlice)) =
     [[], [''a''], [''a'', ''b''], [''a'', ''b'', ''c''], [''a'', ''b'', ''c'', ''d''],
      [''a'', ''b'', ''c'', ''e'']]"
  by (simp add: exDeep_def walk_defs ex_defs)

lemma exDeep_heap:
  "heap (fst (cleanBody doubling initState exDeep nilSlice)) =
     [[''a''], [''a'', ''b''], [''a'', ''b'', ''c'', ''e'']]"
  by (simp add: exDeep_def walk_defs ex_defs)

section \<open>The claims about the simplifiers\<close>

text \<open>
  C1. The claim: trimNewlines is total and returns the empty sequence when every token is
  a newline. On a sequence of one or more newline tokens the first loop leaves \<open>start\<close>
  at the length and the second leaves \<open>end\<close> at zero, and the slice expression
  \<open>tokens[start:end]\<close> panics.
\<close>

theorem trimNewlines_panics_on_newlines:
  "trimNewlines [newlineTok] = Inl (SliceBoundsOutOfRange 1 0)
   \<and> trimNewlines [newlineTok, newlineTok] = Inl (SliceBoundsOutOfRange 2 0)"
  by (simp add: trimNewlines_def sliceExpr_def startLoop.simps ex_defs)

text \<open>
  C2, as stated: the result of a simplifier is never longer than its input. The type
  simplifier turns the three tokens of the quoted literal \<open>list\<close> into four.
\<close>

theorem cleanTypeExpr_list_longer:
  "\<not> length (cleanTypeExpr (quoted ''list'')) \<le> length (quoted ''list'')"
  by (simp add: cleanTypeExpr_def ex_defs)

text \<open>
  C2, amended: a result of cleanValueExpr is never longer than its input; the result of
  cleanTypeExpr is never longer than its input, except that the three tokens of the
  quoted literals \<open>list\<close> and \<open>map\<close> become four tokens.
\<close>

theorem simplifier_lengths:
  "(\<forall>r. cleanValueExpr ts = Inr r \<longrightarrow> length r \<le> length ts)
   \<and> (length (cleanTypeExpr ts) \<le> length ts
        \<or> (typeGuard ts \<and> (Bytes (ts ! 1) = ''list'' \<or> Bytes (ts ! 1) = ''map'')
            \<and> length (cleanTypeExpr ts) = 4))"
proof -
  have "\<forall>r. cleanValueExpr ts = Inr r \<longrightarrow> length r \<le> length ts"
    by (simp add: cleanValueExpr_length)
  moreover have "length (cleanTypeExpr ts) \<le> length ts
        \<or> (typeGuard ts \<and> (Bytes (ts ! 1) = ''list'' \<or> Bytes (ts ! 1) = ''map'')
            \<and> length (cleanTypeExpr ts) = 4)"
    by (simp add: cleanTypeExpr_def typeGuard_def Let_def)
  ultimately show ?thesis by simp
qed

theorem simplifier_lengths_witness:
  "cleanValueExpr (wrap exCall) = Inr exCall \<and> length exCall \<le> length (wrap exCall)
   \<and> typeGuard (quoted ''map'') \<and> length (cleanTypeExpr (quoted ''map'')) = 4"
proof -
  have c: "cleanValueExpr (wrap exCall) = Inr exCall"
    by (simp add: trimNewlines_eq cleanValueExpr_eq valueGuard_def interior_def isNewline_def
      ex_defs)
  have g: "typeGuard (quoted ''map'')"
    by (simp add: typeGuard_def ex_defs)
  have n: "\<not> length (cleanTypeExpr (quoted ''map'')) \<le> length (quoted ''map'')"
    by (simp add: cleanTypeExpr_def ex_defs)
  from simplifier_lengths [of "wrap exCall"] c have "length exCall \<le> length (wrap exCall)"
    by blast
  moreover from simplifier_lengths [of "quoted ''map''"] n
  have "length (cleanTypeExpr (quoted ''map'')) = 4"
    by blast
  ultimately show ?thesis using c g by simp
qed

text \<open>
  C3, as stated: both simplifiers are idempotent. A quoted interpolation of a quoted
  interpolation of \<open>foo\<close> is unwrapped once by cleanValueExpr, and its result is
  unwrapped again by a second application.
\<close>

theorem cleanValueExpr_not_idempotent:
  "cleanValueExpr (wrap exFoo) = Inr exFoo \<and> cleanValueExpr exFoo \<noteq> Inr exFoo"
  by (simp add: trimNewlines_eq cleanValueExpr_eq valueGuard_def interior_def isNewline_def
      ex_defs)

text \<open>
  C3, amended: cleanTypeExpr is idempotent on every token sequence; cleanValueExpr leaves
  its own result unchanged exactly when that result is not again a sequence that it
  unwraps (one that matches the guard and whose interior scan finds no delimiter outside
  nested quotes).
\<close>

theorem simplifiers_twice:
  "cleanTypeExpr (cleanTypeExpr ts) = cleanTypeExpr ts
   \<and> (\<forall>r. cleanValueExpr ts = Inr r \<longrightarrow>
         (cleanValueExpr r = Inr r \<longleftrightarrow> \<not> (valueGuard r \<and> \<not> scanInside 0 (interior r))))"
  by (simp add: cleanTypeExpr_idem cleanValueExpr_fixed_iff)

theorem simplifiers_twice_witness:
  "cleanValueExpr (wrap exCall) = Inr exCall \<and> \<not> valueGuard exCall
   \<and> cleanValueExpr exCall = Inr exCall
   \<and> cleanTypeExpr (cleanTypeExpr (quoted ''list'')) = cleanTypeExpr (quoted ''list'')"
proof -
  have c: "cleanValueExpr (wrap exCall) = Inr exCall"
    by (simp add: trimNewlines_eq cleanValueExpr_eq valueGuard_def interior_def isNewline_def
      ex_defs)
  have g: "\<not> valueGuard exCall"
    by (simp add: valueGuard_def ex_defs)
  from simplifiers_twice [of "wrap exCall"] c g have "cleanValueExpr exCall = Inr exCall"
    by blast
  moreover from simplifiers_twice [of "quoted ''list''"]
  have "cleanTypeExpr (cleanTypeExpr (quoted ''list'')) = cleanTypeExpr (quoted ''list'')"
    by blast
  ultimately show ?thesis using c g by simp
qed

text \<open>
  C4. For a sequence that matches the guard of cleanValueExpr: if the interior holds an
  interpolation delimiter at quote depth zero, the sequence is returned unchanged; if
  every interpolation delimiter of the interior is at a quote depth above zero, or the
  scan ends without rejection, the result is that of trimNewlines on the interior.
\<close>

theorem cleanValueExpr_scan:
  assumes "valueGuard ts"
  shows "((\<exists>i<length (interior ts).
             isInterpDelim (interior ts ! i) \<and> quoteDepth (interior ts) i = 0)
          \<longrightarrow> cleanValueExpr ts = Inr ts)
       \<and> ((\<forall>i<length (interior ts).
              isInterpDelim (interior ts ! i) \<longrightarrow> 0 < quoteDepth (interior ts) i)
          \<longrightarrow> cleanValueExpr ts = trimNewlines (interior ts))
       \<and> (\<not> scanInside 0 (interior ts) \<longrightarrow> cleanValueExpr ts = trimNewlines (interior ts))"
proof (intro conjI impI)
  assume "\<exists>i<length (interior ts).
             isInterpDelim (interior ts ! i) \<and> quoteDepth (interior ts) i = 0"
  then have "scanInside 0 (interior ts)"
    by (auto simp: scanInside_iff)
  then show "cleanValueExpr ts = Inr ts"
    by (simp add: cleanValueExpr_eq)
next
  assume "\<forall>i<length (interior ts).
              isInterpDelim (interior ts ! i) \<longrightarrow> 0 < quoteDepth (interior ts) i"
  then have "\<not> scanInside 0 (interior ts)"
    by (auto simp: scanInside_iff)
  with assms show "cleanValueExpr ts = trimNewlines (interior ts)"
    by (simp add: cleanValueExpr_eq)
next
  assume "\<not> scanInside 0 (interior ts)"
  with assms show "cleanValueExpr ts = trimNewlines (interior ts)"
    by (simp add: cleanValueExpr_eq)
qed

theorem cleanValueExpr_scan_witness:
  "valueGuard (wrap exCall) \<and> interior (wrap exCall) = exCall
   \<and> \<not> scanInside 0 exCall \<and> trimNewlines exCall = Inr exCall
   \<and> cleanValueExpr (wrap exCall) = Inr exCall
   \<and> valueGuard exFooBar \<and> isInterpDelim (interior exFooBar ! 1)
   \<and> quoteDepth (interior exFooBar) 1 = 0
   \<and> cleanValueExpr exFooBar = Inr exFooBar"
proof -
  have g1: "valueGuard (wrap exCall)"
    by (simp add: valueGuard_def ex_defs)
  have i1: "interior (wrap exCall) = exCall"
    by (simp add: interior_def ex_defs)
  have s1: "\<not> scanInside 0 exCall"
    by (simp add: ex_defs)
  have t1: "trimNewlines exCall = Inr exCall"
    by (simp add: trimNewlines_eq isNewline_def ex_defs)
  have g2: "valueGuard exFooBar"
    by (simp add: valueGuard_def ex_defs)
  have d2: "isInterpDelim (interior exFooBar ! 1)"
    by (simp add: interior_def isInterpDelim_def ex_defs)
  have q2: "quoteDepth (interior exFooBar) 1 = 0"
    by (simp add: interior_def quoteDepth_def ex_defs)
  have l2: "1 < length (interior exFooBar)"
    by (simp add: interior_def ex_defs)
  from cleanValueExpr_scan [OF g1] s1 t1 have "cleanValueExpr (wrap exCall) = Inr exCall"
    by (simp add: i1)
  moreover from cleanValueExpr_scan [OF g2] l2 d2 q2
  have "cleanValueExpr exFooBar = Inr exFooBar"
    by blast
  ultimately show ?thesis using g1 i1 s1 t1 g2 d2 q2 by simp
qed

text \<open>
  C5. A sequence that does not match the guard of a simplifier is returned unchanged by
  that simplifier.
\<close>

theorem guard_mismatch_unchanged:
  "(\<not> valueGuard ts \<longrightarrow> cleanValueExpr ts = Inr ts)
   \<and> (\<not> typeGuard ts \<longrightarrow> cleanTypeExpr ts = ts)"
  by (simp add: cleanValueExpr_eq cleanTypeExpr_def typeGuard_def Let_def)

theorem guard_mismatch_unchanged_witness:
  "\<not> valueGuard exCall \<and> cleanValueExpr exCall = Inr exCall
   \<and> \<not> typeGuard exFoo \<and> cleanTypeExpr exFoo = exFoo"
proof -
  have g: "\<not> valueGuard exCall"
    by (simp add: valueGuard_def ex_defs)
  have t: "\<not> typeGuard exFoo"
    by (simp add: typeGuard_def ex_defs)
  from guard_mismatch_unchanged [of exCall] g have "cleanValueExpr exCall = Inr exCall"
    by blast
  moreover from guard_mismatch_unchanged [of exFoo] t have "cleanTypeExpr exFoo = exFoo"
    by blast
  ultimately show ?thesis using g t by simp
qed

text \<open>
  C6. On an open quote, a quoted literal and a close quote, cleanTypeExpr looks at the
  bytes of the literal: \<open>string\<close> gives the identifier \<open>string\<close>, \<open>list\<close> gives the
  tokens of \<open>list(string)\<close>, \<open>map\<close> gives the tokens of \<open>map(string)\<close>, and any
  other literal gives the sequence unchanged.
\<close>

theorem cleanTypeExpr_table:
  assumes "typeGuard ts"
  shows "(Bytes (ts ! 1) = ''string'' \<longrightarrow> cleanTypeExpr ts = [tok TokenIdent ''string''])
       \<and> (Bytes (ts ! 1) = ''list'' \<longrightarrow>
            cleanTypeExpr ts =
              [tok TokenIdent ''list'', tok TokenOParen ''('',
               tok TokenIdent ''string'', tok TokenCParen '')''])
       \<and> (Bytes (ts ! 1) = ''map'' \<longrightarrow>
            cleanTypeExpr ts =
              [tok TokenIdent ''map'', tok TokenOParen ''('',
               tok TokenIdent ''string'', tok TokenCParen '')''])
       \<and> (Bytes (ts ! 1) \<noteq> ''string'' \<and> Bytes (ts ! 1) \<noteq> ''list'' \<and> Bytes (ts ! 1) \<noteq> ''map''
            \<longrightarrow> cleanTypeExpr ts = ts)"
  using assms by (simp add: cleanTypeExpr_def typeGuard_def Let_def tok_def)

theorem cleanTypeExpr_table_witness:
  "typeGuard (quoted ''string'') \<and> cleanTypeExpr (quoted ''string'') = [tok TokenIdent ''string'']
   \<and> typeGuard (quoted ''list'')
   \<and> cleanTypeExpr (quoted ''list'') =
        [tok TokenIdent ''list'', tok TokenOParen ''('',
         tok TokenIdent ''string'', tok TokenCParen '')'']
   \<and> typeGuard (quoted ''map'')
   \<and> cleanTypeExpr (quoted ''map'') =
        [tok TokenIdent ''map'', tok TokenOParen ''('',
         tok TokenIdent ''string'', tok TokenCParen '')'']
   \<and> typeGuard (quoted ''number'') \<and> cleanTypeExpr (quoted ''number'') = quoted ''number''"
proof -
  have g: "typeGuard (quoted s)" for s
    by (simp add: typeGuard_def ex_defs)
  have b: "Bytes (quoted s ! Suc 0) = s" for s
    by (simp add: ex_defs)
  from cleanTypeExpr_table [OF g [of "''string''"]]
  have "cleanTypeExpr (quoted ''string'') = [tok TokenIdent ''string'']"
    by (simp add: b)
  moreover from cleanTypeExpr_table [OF g [of "''list''"]]
  have "cleanTypeExpr (quoted ''list'') =
        [tok TokenIdent ''list'', tok TokenOParen ''('',
         tok TokenIdent ''string'', tok TokenCParen '')'']"
    by (simp add: b)
  moreover from cleanTypeExpr_table [OF g [of "''map''"]]
  have "cleanTypeExpr (quoted ''map'') =
        [tok TokenIdent ''map'', tok TokenOParen ''('',
         tok TokenIdent ''string'', tok TokenCParen '')'']"
    by (simp add: b)
  moreover from cleanTypeExpr_table [OF g [of "''number''"]]
  have "cleanTypeExpr (quoted ''number'') = quoted ''number''"
    by (simp add: b)
  ultimately show ?thesis using g by simp
qed

text \<open>
  C10. Whenever cleanValueExpr returns a result that differs from its input, the input
  matches the guard and the result is its interior with leading and trailing newline
  tokens removed: the interior is a run of newlines, the result, and a run of newlines.
  The result is not empty and neither starts nor ends with a newline.
\<close>

theorem cleanValueExpr_result_is_trimmed_interior:
  assumes "cleanValueExpr ts = Inr r" "r \<noteq> ts"
  shows "valueGuard ts
       \<and> (\<exists>a b. interior ts = a @ r @ b \<and> list_all isNewline a \<and> list_all isNewline b)
       \<and> r \<noteq> [] \<and> \<not> isNewline (hd r) \<and> \<not> isNewline (last r)"
proof -
  from assms have g: "valueGuard ts" and t: "trimNewlines (interior ts) = Inr r"
    by (auto simp: cleanValueExpr_eq split: if_splits)
  from g have "interior ts \<noteq> []"
    by (auto simp: valueGuard_def interior_def)
  with t have "r \<noteq> [] \<and> \<not> isNewline (hd r) \<and> \<not> isNewline (last r)"
    by (rule trimNewlines_ends)
  with g trimNewlines_Inr [OF t] show ?thesis by simp
qed

theorem cleanValueExpr_result_is_trimmed_interior_witness:
  "cleanValueExpr (wrap [newlineTok, tok TokenIdent ''foo'', newlineTok]) = Inr [tok TokenIdent ''foo'']
   \<and> [tok TokenIdent ''foo''] \<noteq> wrap [newlineTok, tok TokenIdent ''foo'', newlineTok]
   \<and> (\<exists>a b. interior (wrap [newlineTok, tok TokenIdent ''foo'', newlineTok])
               = a @ [tok TokenIdent ''foo''] @ b
             \<and> list_all isNewline a \<and> list_all isNewline b)"
proof -
  have c: "cleanValueExpr (wrap [newlineTok, tok TokenIdent ''foo'', newlineTok])
           = Inr [tok TokenIdent ''foo'']"
    by (simp add: trimNewlines_eq cleanValueExpr_eq valueGuard_def interior_def isNewline_def
      ex_defs)
  have n: "[tok TokenIdent ''foo''] \<noteq> wrap [newlineTok, tok TokenIdent ''foo'', newlineTok]"
    by (simp add: ex_defs)
  from cleanValueExpr_result_is_trimmed_interior [OF c n] c n show ?thesis
    by simp
qed
section \<open>The claims about the walk\<close>

text \<open>
  C7. When cleanBody returns, every attribute of the body and of its descendants holds
  the result of the type simplifier if the types of its enclosing blocks are the single
  entry \<open>variable\<close> and its name is \<open>type\<close>, and a result of the value simplifier in
  every other case; the enclosing block types of the given body are the elements of
  \<open>inBlocks\<close>. This holds for every growth policy of the runtime.
\<close>

theorem attribute_routing:
  assumes "wfSlice (heap \<sigma>) s" and "cleanBody g \<sigma> b s = (\<sigma>', Inr b')"
  shows "list_all2 routed (attrsAt (contents (heap \<sigma>) s) b) (attrsAt (contents (heap \<sigma>) s) b')"
proof -
  from walk_inv(1) [OF assms] have "cleanBodySpec (contents (heap \<sigma>) s) b = Inr b'"
    by simp
  then show ?thesis
    by (rule cleanBodySpec_routed)
qed

theorem attribute_routing_witness:
  "wfSlice (heap initState) nilSlice
   \<and> snd (cleanBody doubling initState exBody nilSlice) = Inr exBodyCleaned
   \<and> list_all2 routed (attrsAt [] exBody) (attrsAt [] exBodyCleaned)
   \<and> attrsAt [] exBody =
       [([], ''name'', wrap [tok TokenIdent ''foo'']),
        ([''variable''], ''type'', quoted ''list''),
        ([''variable''], ''default'', quoted ''x''),
        ([''variable'', ''nested''], ''type'', quoted ''map''),
        ([''resource''], ''type'', quoted ''string''),
        ([''resource''], ''count'', exFoo)]"
proof -
  have w: "wfSlice (heap initState) nilSlice"
    by (simp add: wfSlice_def initState_def nilSlice_def)
  have c: "cleanBody doubling initState exBody nilSlice
           = (fst (cleanBody doubling initState exBody nilSlice), Inr exBodyCleaned)"
    using exBody_cleaned by (simp add: prod_eq_iff)
  have e: "contents (heap initState) nilSlice = []"
    by (simp add: contents_def nilSlice_def)
  have a: "attrsAt [] exBody =
       [([], ''name'', wrap [tok TokenIdent ''foo'']),
        ([''variable''], ''type'', quoted ''list''),
        ([''variable''], ''default'', quoted ''x''),
        ([''variable'', ''nested''], ''type'', quoted ''map''),
        ([''resource''], ''type'', quoted ''string''),
        ([''resource''], ''count'', exFoo)]"
    by (simp add: exBody_def)
  from attribute_routing [OF w c]
  have "list_all2 routed (attrsAt [] exBody) (attrsAt [] exBodyCleaned)"
    by (simp add: e)
  with w exBody_cleaned a show ?thesis by simp
qed

text \<open>
  C8. Every call of cleanBody is given the context of its caller with the type of the
  child block appended: the calls of a walk are given, in their order, the contexts of
  the walk that passes the context as a value (the first of them, up to the panic, when
  the walk panics). What a call appends for one child is not seen by the rest of the
  walk: the slice of the caller has the same elements when the call returns, and the
  outcome of the walk is that of the value-passing walk. This holds for every growth
  policy of the runtime.
\<close>

theorem recursive_call_contexts:
  assumes "wfSlice (heap \<sigma>) s" and "cleanBody g \<sigma> b s = (\<sigma>', r)"
  shows "prefix (calls \<sigma>') (calls \<sigma> @ callsSpec (contents (heap \<sigma>) s) b)
       \<and> (\<forall>b'. r = Inr b' \<longrightarrow> calls \<sigma>' = calls \<sigma> @ callsSpec (contents (heap \<sigma>) s) b)
       \<and> contents (heap \<sigma>') s = contents (heap \<sigma>) s
       \<and> r = cleanBodySpec (contents (heap \<sigma>) s) b"
proof -
  from walk_inv(1) [OF assms] obtain p where
    f: "heapFrame (heap \<sigma>) s (heap \<sigma>')" and
    r: "r = cleanBodySpec (contents (heap \<sigma>) s) b" and
    p: "calls \<sigma>' = calls \<sigma> @ p" "prefix p (callsSpec (contents (heap \<sigma>) s) b)"
       "\<forall>x. r = Inr x \<longrightarrow> p = callsSpec (contents (heap \<sigma>) s) b"
    by blast
  from p have "prefix (calls \<sigma>') (calls \<sigma> @ callsSpec (contents (heap \<sigma>) s) b)"
    by simp
  moreover from p have "\<forall>b'. r = Inr b' \<longrightarrow> calls \<sigma>' = calls \<sigma> @ callsSpec (contents (heap \<sigma>) s) b"
    by simp
  moreover have "contents (heap \<sigma>') s = contents (heap \<sigma>) s"
    using assms(1) f by (rule heapFrame_contents)
  ultimately show ?thesis
    using r by simp
qed

text \<open>
  With the doubling policy the blocks \<open>d\<close> and \<open>e\<close> of the example are given slices
  on one backing array, whose last element is \<open>d\<close> during the first call and \<open>e\<close>
  during the second; each call is given its own context.
\<close>

theorem recursive_call_contexts_witness:
  "wfSlice (heap initState) nilSlice
   \<and> calls (fst (cleanBody doubling initState exDeep nilSlice)) =
       [[], [''a''], [''a'', ''b''], [''a'', ''b'', ''c''], [''a'', ''b'', ''c'', ''d''],
        [''a'', ''b'', ''c'', ''e'']]
   \<and> heap (fst (cleanBody doubling initState exDeep nilSlice)) =
       [[''a''], [''a'', ''b''], [''a'', ''b'', ''c'', ''e'']]
   \<and> callsSpec [] exDeep = calls (fst (cleanBody doubling initState exDeep nilSlice))
   \<and> snd (cleanBody doubling initState exDeep nilSlice) = cleanBodySpec [] exDeep"
proof -
  have w: "wfSlice (heap initState) nilSlice"
    by (simp add: wfSlice_def initState_def nilSlice_def)
  have c: "cleanBody doubling initState exDeep nilSlice
           = (fst (cleanBody doubling initState exDeep nilSlice), snd (cleanBody doubling initState exDeep nilSlice))"
    by simp
  have e: "contents (heap initState) nilSlice = []"
    by (simp add: contents_def nilSlice_def)
  have i: "calls initState = []"
    by (simp add: initState_def)
  have s: "callsSpec [] exDeep =
       [[], [''a''], [''a'', ''b''], [''a'', ''b'', ''c''], [''a'', ''b'', ''c'', ''d''],
        [''a'', ''b'', ''c'', ''e'']]"
    by (simp add: exDeep_def)
  from recursive_call_contexts [OF w c]
  have "snd (cleanBody doubling initState exDeep nilSlice) = cleanBodySpec [] exDeep"
    by (simp add: e)
  with w exDeep_calls exDeep_heap s show ?thesis by simp
qed



end
